theory Spec2Isabelle
  imports Main "HOL-Library.Word"
begin

section \<open>The scoring device: data model\<close>

text \<open>
  The program (scorer.cpp) is an Arduino sketch for the ATmega2560: \<open>uint8_t\<close> is an
  8-bit word, \<open>unsigned long\<close> a 32-bit word, and \<open>int\<close> arguments are only compared and
  used as indices, so they are modelled as HOL integers. The hardware is not part of the
  program state: every call of \<open>digitalWrite\<close>, \<open>pinMode\<close> and \<open>delay\<close> is recorded, in
  program order, as an event; \<open>digitalRead\<close> and \<open>millis\<close> are inputs supplied by the
  environment at each call of \<open>handle_button\<close>.
\<close>

type_synonym pin = "8 word"

datatype level = LOW | HIGH

datatype pin_mode = INPUT | OUTPUT

datatype event =
    DigitalWrite pin level
  | PinMode pin pin_mode
  | Delay nat

subsection \<open>Preprocessor macros\<close>

definition P1_BUTTON :: pin where "P1_BUTTON = 10"
definition P2_BUTTON :: pin where "P2_BUTTON = 9"
definition RESET :: pin where "RESET = 11"

definition BUTTON_HOLD_MS :: nat where "BUTTON_HOLD_MS = 3000"
definition SCORE_BLINK_MS :: nat where "SCORE_BLINK_MS = 500"
definition BUTTON_PRESS_LENGTH :: nat where "BUTTON_PRESS_LENGTH = 200"
definition UP_TO_SCORE :: int where "UP_TO_SCORE = 21"

definition SEVEN_SEGMENTS :: nat where "SEVEN_SEGMENTS = 7"
definition NUM_DIGITS :: int where "NUM_DIGITS = 10"

text \<open>\<open>COMMON_ANODE\<close> is defined, so a segment is lit by the low level.\<close>

definition ON :: level where "ON = LOW"
definition OFF :: level where "OFF = HIGH"

subsection \<open>The player record and the globals\<close>

record Player =
  d1_pins :: "pin list"
  d2_pins :: "pin list"
  d1_num :: "8 word"
  d2_num :: "8 word"
  start :: "32 word"
  button_state :: bool
  prev_button_state :: bool

record globals =
  p1 :: Player
  p2 :: Player
  winner_found :: bool
  p1_is_winner :: bool

text \<open>\<open>handle_button\<close> takes a reference to one of the two global players.\<close>

datatype player_ref = RefP1 | RefP2

fun deref :: "player_ref \<Rightarrow> globals \<Rightarrow> Player" where
  "deref RefP1 s = p1 s"
| "deref RefP2 s = p2 s"

fun upd :: "player_ref \<Rightarrow> (Player \<Rightarrow> Player) \<Rightarrow> globals \<Rightarrow> globals" where
  "upd RefP1 f s = s\<lparr>p1 := f (p1 s)\<rparr>"
| "upd RefP2 f s = s\<lparr>p2 := f (p2 s)\<rparr>"

text \<open>What the environment supplies to one call of \<open>handle_button\<close>.\<close>

record inp =
  digitalRead :: "pin \<Rightarrow> level"
  millis :: "32 word"

subsection \<open>The segment table\<close>

definition displayLEDs :: "level list list" where
  "displayLEDs =
    [[ON, ON, ON, ON, ON, ON, OFF],
     [OFF, ON, ON, ON, ON, ON, OFF],
     [ON, ON, OFF, ON, ON, OFF, ON],
     [ON, ON, ON, ON, OFF, OFF, ON],
     [OFF, ON, ON, OFF, OFF, ON, ON],
     [ON, OFF, ON, ON, OFF, ON, ON],
     [ON, OFF, ON, ON, ON, ON, ON],
     [ON, ON, ON, OFF, OFF, OFF, OFF],
     [ON, ON, ON, ON, ON, ON, ON],
     [ON, ON, ON, ON, OFF, ON, ON]]"

section \<open>Functions\<close>

text \<open>
  The loop over the seven segments of one display, shared by \<open>displayFirstDigit\<close> and
  \<open>displaySecondDigit\<close>, which differ in the pin array only.
\<close>

definition display_digit :: "pin list \<Rightarrow> int \<Rightarrow> event list" where
  "display_digit pins num =
     map (\<lambda>i. if num < 0 \<or> num \<ge> NUM_DIGITS
               then DigitalWrite (pins ! i) OFF
               else DigitalWrite (pins ! i) (displayLEDs ! nat num ! i))
         [0 ..< SEVEN_SEGMENTS]"

definition displayFirstDigit :: "Player \<Rightarrow> int \<Rightarrow> event list" where
  "displayFirstDigit p num = display_digit (d1_pins p) num"

definition displaySecondDigit :: "Player \<Rightarrow> int \<Rightarrow> event list" where
  "displaySecondDigit p num = display_digit (d2_pins p) num"

definition blinkWinner :: "Player \<Rightarrow> event list" where
  "blinkWinner p =
     displayFirstDigit p (- 1) @ displaySecondDigit p (- 1) @ [Delay SCORE_BLINK_MS] @
     displayFirstDigit p (uint (d1_num p)) @ displaySecondDigit p (uint (d2_num p)) @
     [Delay SCORE_BLINK_MS]"

definition reset_game :: "globals \<Rightarrow> globals \<times> event list" where
  "reset_game s = (s, [PinMode RESET OUTPUT])"

text \<open>The score increment of the release branch (lines 194 to 198).\<close>

definition increment_score :: "Player \<Rightarrow> Player" where
  "increment_score p =
     (let q = p\<lparr>d2_num := d2_num p + 1\<rparr>
      in if uint (d2_num q) \<ge> NUM_DIGITS
         then q\<lparr>d1_num := d1_num q + 1, d2_num := 0\<rparr>
         else q)"

definition button_pin :: "player_ref \<Rightarrow> pin" where
  "button_pin r = (if r = RefP1 then P1_BUTTON else P2_BUTTON)"

definition handle_button :: "player_ref \<Rightarrow> inp \<Rightarrow> globals \<Rightarrow> globals \<times> event list" where
  "handle_button r io s =
     (let s1 = upd r (\<lambda>p. p\<lparr>button_state := (digitalRead io (button_pin r) = HIGH)\<rparr>) s;
          p = deref r s1;
          (s2, ev) =
            (if button_state p \<and> \<not> prev_button_state p then
               (upd r (\<lambda>p. p\<lparr>start := millis io\<rparr>) s1, [Delay BUTTON_PRESS_LENGTH])
             else if button_state p \<and> prev_button_state p then
               (if unat (millis io - start p) \<ge> BUTTON_HOLD_MS then reset_game s1
                else (s1, []))
             else if \<not> button_state p \<and> prev_button_state p then
               (if \<not> winner_found s1 then (upd r increment_score s1, []) else (s1, []))
             else (s1, []))
      in (upd r (\<lambda>p. p\<lparr>prev_button_state := button_state p\<rparr>) s2, ev))"

subsection \<open>Initialisation\<close>

text \<open>
  The function \<open>setup()\<close> of the sketch: \<open>setup_state\<close> is the value of the globals
  it assigns and \<open>setup_board\<close> pairs it with the \<open>pinMode\<close> calls it makes.
\<close>

definition setup_state :: globals where
  "setup_state =
     \<lparr>p1 = \<lparr>d1_pins = [2, 3, 4, 5, 6, 7, 8],
            d2_pins = [14, 15, 16, 17, 18, 19, 20],
            d1_num = 0, d2_num = 0, start = 0,
            button_state = False, prev_button_state = False\<rparr>,
      p2 = \<lparr>d1_pins = [22, 24, 26, 28, 30, 32, 34],
            d2_pins = [23, 25, 27, 29, 31, 33, 35],
            d1_num = 0, d2_num = 0, start = 0,
            button_state = False, prev_button_state = False\<rparr>,
      winner_found = False,
      p1_is_winner = False\<rparr>"

definition setup_board :: "globals \<times> event list" where
  "setup_board =
     (setup_state,
      concat (map (\<lambda>i. [PinMode (d1_pins (p1 setup_state) ! i) OUTPUT,
                         PinMode (d2_pins (p1 setup_state) ! i) OUTPUT,
                         PinMode (d1_pins (p2 setup_state) ! i) OUTPUT,
                         PinMode (d2_pins (p2 setup_state) ! i) OUTPUT])
                  [0 ..< SEVEN_SEGMENTS]) @
      [PinMode P1_BUTTON INPUT, PinMode P2_BUTTON INPUT])"

subsection \<open>loop\<close>

text \<open>Lines 268 and 269: the digits are combined in \<open>int\<close> and stored in a \<open>uint8_t\<close>.\<close>

definition score :: "Player \<Rightarrow> 8 word" where
  "score p = word_of_int (uint (d1_num p) * NUM_DIGITS + uint (d2_num p))"

text \<open>
  The test of lines 272 and 275, \<open>a >= UP_TO_SCORE && a > (b + 1)\<close>: both operands are
  promoted to \<open>int\<close>, so \<open>b + 1\<close> does not wrap.
\<close>

definition win_by_2 :: "8 word \<Rightarrow> 8 word \<Rightarrow> bool" where
  "win_by_2 a b = (uint a \<ge> UP_TO_SCORE \<and> uint a > uint b + 1)"

text \<open>Lines 267 to 277: the body of \<open>if(!winner_found)\<close>.\<close>

definition check_win :: "globals \<Rightarrow> globals" where
  "check_win s =
     (let p1_score = score (p1 s);
          p2_score = score (p2 s)
      in if win_by_2 p1_score p2_score
         then s\<lparr>winner_found := True, p1_is_winner := True\<rparr>
         else if win_by_2 p2_score p1_score
         then s\<lparr>winner_found := True\<rparr>
         else s)"

text \<open>Lines 256 to 259: the four display calls that open every iteration.\<close>

definition display_scores :: "globals \<Rightarrow> event list" where
  "display_scores s =
     displayFirstDigit (p1 s) (uint (d1_num (p1 s))) @
     displaySecondDigit (p1 s) (uint (d2_num (p1 s))) @
     displayFirstDigit (p2 s) (uint (d1_num (p2 s))) @
     displaySecondDigit (p2 s) (uint (d2_num (p2 s)))"

text \<open>
  One iteration of \<open>loop\<close>; \<open>io1\<close> is what player 1's call of \<open>handle_button\<close> reads
  and \<open>io2\<close> what player 2's call reads.
\<close>

definition loop :: "inp \<Rightarrow> inp \<Rightarrow> globals \<Rightarrow> globals \<times> event list" where
  "loop io1 io2 s =
     (let ev0 = display_scores s;
          (s1, ev1) = handle_button RefP1 io1 s;
          (s2, ev2) = handle_button RefP2 io2 s1;
          (s3, ev3) =
            (if \<not> winner_found s2 then (check_win s2, [])
             else if p1_is_winner s2 then (s2, blinkWinner (p1 s2))
             else (s2, blinkWinner (p2 s2)))
      in (s3, ev0 @ ev1 @ ev2 @ ev3))"

text \<open>The control loop: \<open>loop\<close> is called again and again, once per pair of inputs.\<close>

fun run :: "(inp \<times> inp) list \<Rightarrow> globals \<Rightarrow> globals" where
  "run [] s = s"
| "run ((io1, io2) # ios) s = run ios (fst (loop io1 io2 s))"

section \<open>Observing the program\<close>

subsection \<open>Output lines\<close>

text \<open>The levels and the pins of the \<open>digitalWrite\<close> calls of an event list, in order.\<close>

fun levels_of :: "event list \<Rightarrow> level list" where
  "levels_of [] = []"
| "levels_of (DigitalWrite x l # es) = l # levels_of es"
| "levels_of (e # es) = levels_of es"

fun pins_of :: "event list \<Rightarrow> pin list" where
  "pins_of [] = []"
| "pins_of (DigitalWrite x l # es) = x # pins_of es"
| "pins_of (e # es) = pins_of es"

text \<open>
  The level each output line is left at, and the mode each pin is left in, after a list
  of events: \<open>digitalWrite\<close> sets the level of its pin, \<open>pinMode\<close> the mode.
\<close>

fun drive :: "event list \<Rightarrow> (pin \<Rightarrow> level) \<Rightarrow> (pin \<Rightarrow> level)" where
  "drive [] lv = lv"
| "drive (DigitalWrite x l # es) lv = drive es (lv(x := l))"
| "drive (e # es) lv = drive es lv"

fun configure :: "event list \<Rightarrow> (pin \<Rightarrow> pin_mode) \<Rightarrow> (pin \<Rightarrow> pin_mode)" where
  "configure [] md = md"
| "configure (PinMode x m # es) md = configure es (md(x := m))"
| "configure (e # es) md = configure es md"

text \<open>What a display shows for a value: the row of the table, or blank out of range.\<close>

definition pattern_of :: "int \<Rightarrow> level list" where
  "pattern_of num =
     (if num < 0 \<or> num \<ge> NUM_DIGITS then replicate SEVEN_SEGMENTS OFF
      else displayLEDs ! nat num)"

text \<open>The wiring assigned by \<open>setup()\<close>.\<close>

definition wired :: "globals \<Rightarrow> bool" where
  "wired s =
     (d1_pins (p1 s) = d1_pins (p1 setup_state) \<and> d2_pins (p1 s) = d2_pins (p1 setup_state) \<and>
      d1_pins (p2 s) = d1_pins (p2 setup_state) \<and> d2_pins (p2 s) = d2_pins (p2 setup_state))"

subsection \<open>The digit table of the specification\<close>

text \<open>
  Section 4.1 of the specification lists, for each digit, the segments that are lit, in
  the order A, B, C, D, E, F, G. The header comment of scorer.cpp gives the same table as
  common-anode levels.
\<close>

definition spec_digit_table :: "bool list list" where
  "spec_digit_table =
    [[True, True, True, True, True, True, False],
     [False, True, True, False, False, False, False],
     [True, True, False, True, True, False, True],
     [True, True, True, True, False, False, True],
     [False, True, True, False, False, True, True],
     [True, False, True, True, False, True, True],
     [True, False, True, True, True, True, True],
     [True, True, True, False, False, False, False],
     [True, True, True, True, True, True, True],
     [True, True, True, True, False, True, True]]"

definition spec_levels :: "nat \<Rightarrow> level list" where
  "spec_levels d = map (\<lambda>lit. if lit then ON else OFF) (spec_digit_table ! d)"


subsection \<open>Scores and the state of the match\<close>

text \<open>The combined score of the specification, \<open>tens * 10 + ones\<close>, as an integer.\<close>

definition combined_score :: "Player \<Rightarrow> int" where
  "combined_score p = uint (d1_num p) * 10 + uint (d2_num p)"

definition digits :: "globals \<Rightarrow> (8 word \<times> 8 word) \<times> (8 word \<times> 8 word)" where
  "digits s = ((d1_num (p1 s), d2_num (p1 s)), (d1_num (p2 s), d2_num (p2 s)))"

text \<open>
  The tens and ones digits of a player, the increment of section 4.3 of the specification
  on such a pair (\<open>ones += 1\<close>; when it reaches 10, ones is set to 0 and \<open>tens += 1\<close>,
  in the 8-bit arithmetic of the fields), and the release edge of a button: it reads LOW
  and was read pressed by the previous call.
\<close>

definition player_digits :: "Player \<Rightarrow> 8 word \<times> 8 word" where
  "player_digits p = (d1_num p, d2_num p)"

definition carry :: "8 word \<times> 8 word \<Rightarrow> 8 word \<times> 8 word" where
  "carry d = (if snd d = 9 then (fst d + 1, 0) else (fst d, snd d + 1))"

definition release_edge :: "player_ref \<Rightarrow> inp \<Rightarrow> globals \<Rightarrow> bool" where
  "release_edge r io s = (digitalRead io (button_pin r) = LOW \<and> prev_button_state (deref r s))"

definition ones_in_range :: "globals \<Rightarrow> bool" where
  "ones_in_range s = (uint (d2_num (p1 s)) \<le> 9 \<and> uint (d2_num (p2 s)) \<le> 9)"

text \<open>
  The three states of the match, as \<open>loop\<close> reads the two flags at lines 266, 278 and
  281.
\<close>

datatype match_state = NoWinnerYet | P1Winner | P2Winner

definition match_state_of :: "globals \<Rightarrow> match_state" where
  "match_state_of s =
     (if \<not> winner_found s then NoWinnerYet
      else if p1_is_winner s then P1Winner else P2Winner)"

definition winner :: "globals \<Rightarrow> Player" where
  "winner s = (if p1_is_winner s then p1 s else p2 s)"


text \<open>The globals when \<open>loop\<close> reaches line 266, after both calls of \<open>handle_button\<close>.\<close>

definition after_buttons :: "inp \<Rightarrow> inp \<Rightarrow> globals \<Rightarrow> globals" where
  "after_buttons io1 io2 s = fst (handle_button RefP2 io2 (fst (handle_button RefP1 io1 s)))"

subsection \<open>The reset trigger\<close>

definition reset_fired :: "event list \<Rightarrow> bool" where
  "reset_fired evs = (PinMode RESET OUTPUT \<in> set evs)"

text \<open>The input of one player's call of \<open>handle_button\<close> in an iteration.\<close>

fun sel :: "player_ref \<Rightarrow> inp \<times> inp \<Rightarrow> inp" where
  "sel RefP1 (io1, io2) = io1"
| "sel RefP2 (io1, io2) = io2"

text \<open>The events of one player's call of \<open>handle_button\<close> in an iteration of \<open>loop\<close>.\<close>

fun button_events :: "player_ref \<Rightarrow> inp \<times> inp \<Rightarrow> globals \<Rightarrow> event list" where
  "button_events RefP1 (io1, io2) s = snd (handle_button RefP1 io1 s)"
| "button_events RefP2 (io1, io2) s =
     snd (handle_button RefP2 io2 (fst (handle_button RefP1 io1 s)))"

text \<open>
  Whether, over a sequence of iterations of \<open>loop\<close>, the given player's call of
  \<open>handle_button\<close> calls \<open>reset_game\<close> at least once.
\<close>

fun resets :: "player_ref \<Rightarrow> (inp \<times> inp) list \<Rightarrow> globals \<Rightarrow> bool" where
  "resets r [] s = False"
| "resets r (c # cs) s =
     (reset_fired (button_events r c s) \<or> resets r cs (fst (loop (fst c) (snd c) s)))"

subsection \<open>Buttons over time\<close>

text \<open>
  The environment as a function of time: the level of each input pin at each millisecond
  since start-up. A read at time \<open>t\<close> sees the levels of that moment and the value of
  \<open>millis()\<close>, a 32-bit counter of milliseconds.
\<close>

definition read_at :: "(nat \<Rightarrow> pin \<Rightarrow> level) \<Rightarrow> nat \<Rightarrow> inp" where
  "read_at env t = \<lparr>digitalRead = env t, millis = of_nat t\<rparr>"

text \<open>The time an event list blocks for: the sum of its \<open>delay\<close> calls.\<close>

fun delays :: "event list \<Rightarrow> nat" where
  "delays [] = 0"
| "delays (Delay n # es) = n + delays es"
| "delays (e # es) = delays es"

text \<open>
  The inputs of the first \<open>n\<close> iterations of \<open>loop\<close> started at time \<open>t\<close>, when only
  the calls of \<open>delay\<close> take time: player 1's button is read at the start of the
  iteration, player 2's after the pause of player 1's call, and the next iteration starts
  after all the pauses of this one. On the board every read is later still, never
  earlier.
\<close>

fun schedule :: "(nat \<Rightarrow> pin \<Rightarrow> level) \<Rightarrow> nat \<Rightarrow> nat \<Rightarrow> globals \<Rightarrow> (inp \<times> inp) list" where
  "schedule env 0 t s = []"
| "schedule env (Suc n) t s =
     (let io1 = read_at env t;
          io2 = read_at env (t + delays (snd (handle_button RefP1 io1 s)))
      in (io1, io2) #
         schedule env n (t + delays (snd (loop io1 io2 s))) (fst (loop io1 io2 s)))"

text \<open>The button on pin \<open>x\<close> is down at every millisecond from \<open>t\<close> to \<open>t + d\<close>.\<close>

definition held_for :: "(nat \<Rightarrow> pin \<Rightarrow> level) \<Rightarrow> pin \<Rightarrow> nat \<Rightarrow> nat \<Rightarrow> bool" where
  "held_for env x t d = (\<forall>u. t \<le> u \<and> u < t + d \<longrightarrow> env u x = HIGH)"

text \<open>Player 1's button is down from start-up until time \<open>d\<close>; player 2's is never touched.\<close>

definition p1_down_until :: "nat \<Rightarrow> nat \<Rightarrow> pin \<Rightarrow> level" where
  "p1_down_until d t x = (if x = P1_BUTTON \<and> t < d then HIGH else LOW)"

subsection \<open>Concrete inputs and states\<close>

definition pressed :: "32 word \<Rightarrow> inp" where
  "pressed t = \<lparr>digitalRead = (\<lambda>x. HIGH), millis = t\<rparr>"

definition released :: "32 word \<Rightarrow> inp" where
  "released t = \<lparr>digitalRead = (\<lambda>x. LOW), millis = t\<rparr>"

definition with_digits :: "8 word \<times> 8 word \<Rightarrow> 8 word \<times> 8 word \<Rightarrow> globals \<Rightarrow> globals" where
  "with_digits a b s =
     s\<lparr>p1 := (p1 s)\<lparr>d1_num := fst a, d2_num := snd a\<rparr>,
       p2 := (p2 s)\<lparr>d1_num := fst b, d2_num := snd b\<rparr>\<rparr>"

text \<open>The player's button was read pressed by the previous call of \<open>handle_button\<close>.\<close>

definition seen_pressed :: "player_ref \<Rightarrow> globals \<Rightarrow> globals" where
  "seen_pressed r s = upd r (\<lambda>p. p\<lparr>prev_button_state := True\<rparr>) s"

text \<open>Player 1 has 256 points and player 2 has 255, with no winner yet.\<close>

definition overflow_state :: globals where
  "overflow_state = with_digits (25, 6) (25, 5) setup_state"

text \<open>Both players have 255 points, no winner yet, and player 1's button is down.\<close>

definition tied_255_state :: globals where
  "tied_255_state = seen_pressed RefP1 (with_digits (25, 5) (25, 5) setup_state)"

text \<open>Player 1 shows 255 tens and 9 ones and has just been seen pressed.\<close>

definition carry_state :: globals where
  "carry_state = seen_pressed RefP1 (with_digits (255, 9) (0, 0) setup_state)"

text \<open>Player 1 shows 1 ten and 9 ones and has just been seen pressed.\<close>

definition nineteen_state :: globals where
  "nineteen_state = seen_pressed RefP1 (with_digits (1, 9) (0, 0) setup_state)"

text \<open>Player 1 has won 21 to 19.\<close>

definition won_state :: globals where
  "won_state = (with_digits (2, 1) (1, 9) setup_state)\<lparr>winner_found := True, p1_is_winner := True\<rparr>"

section \<open>Basic facts\<close>

lemmas macros = P1_BUTTON_def P2_BUTTON_def RESET_def BUTTON_HOLD_MS_def SCORE_BLINK_MS_def
  BUTTON_PRESS_LENGTH_def UP_TO_SCORE_def SEVEN_SEGMENTS_def NUM_DIGITS_def

lemma upt7: "[0 ..< 7] = [0, 1, 2, 3, 4, 5, 6]"
  by (simp add: upt_rec)

lemma uint_succ8: "uint ((x :: 8 word) + 1) = (uint x + 1) mod 256"
  by (simp add: uint_word_ariths)

lemma uint8_lt: "uint (x :: 8 word) < 256"
  using uint_bounded [of x] by simp

lemma uint8_eq_iff: "(x = (y :: 8 word)) = (uint x = uint y)"
  by (rule word_uint_eq_iff)

lemma ones_carry: "uint (x :: 8 word) \<le> 9 \<Longrightarrow> (10 \<le> uint (x + 1)) = (x = 9)"
  by (simp add: uint_succ8 uint8_eq_iff)

lemma tens_carry: "x \<noteq> 255 \<Longrightarrow> uint ((x :: 8 word) + 1) = uint x + 1"
  using uint8_lt [of x] by (simp add: uint_succ8 uint8_eq_iff)

lemma increment_score_cases:
  "uint (d2_num p) \<le> 9 \<Longrightarrow>
   increment_score p =
     (if d2_num p = 9 then p\<lparr>d1_num := d1_num p + 1, d2_num := 0\<rparr>
      else p\<lparr>d2_num := d2_num p + 1\<rparr>)"
  by (simp add: increment_score_def Let_def macros ones_carry)

lemma deref_upd_same [simp]: "deref r (upd r f s) = f (deref r s)"
  by (cases r) simp_all

lemma deref_upd_other [simp]: "r' \<noteq> r \<Longrightarrow> deref r' (upd r f s) = deref r' s"
  by (cases r; cases r') simp_all

lemma winner_found_upd [simp]: "winner_found (upd r f s) = winner_found s"
  by (cases r) simp_all

lemma p1_is_winner_upd [simp]: "p1_is_winner (upd r f s) = p1_is_winner s"
  by (cases r) simp_all

section \<open>The digit renderer\<close>

lemma display_one: "levels_of (display_digit ps 1) = [OFF, ON, ON, ON, ON, ON, OFF]"
  by (simp add: display_digit_def macros upt7 displayLEDs_def)

lemma display_other_digits:
  "d \<in> {0, 2, 3, 4, 5, 6, 7, 8, 9} \<Longrightarrow> levels_of (display_digit ps (int d)) = spec_levels d"
  by (auto simp add: display_digit_def macros upt7 displayLEDs_def spec_levels_def
      spec_digit_table_def)

lemma display_blank:
  "num < 0 \<or> 9 < num \<Longrightarrow> levels_of (display_digit ps num) = replicate 7 OFF"
  by (auto simp add: display_digit_def macros upt7 numeral_eq_Suc)

text \<open>
  Claim C2. The render operation should drive, for every digit, the pattern of the digit
  table of section 4.1, where digit 1 lights exactly the segments B and C. For digit 1
  both \<open>displayFirstDigit\<close> and \<open>displaySecondDigit\<close> write the active level to the
  five segments B, C, D, E and F: row 1 of \<open>displayLEDs\<close> differs from the table of the
  specification, and from the table in the header comment of scorer.cpp, at D, E and F.
  (The other nine digits and every value outside 0..9 are rendered as specified, see
  \<open>display_other_digits\<close> and \<open>display_blank\<close>.)
\<close>

theorem digit_one_lights_five_segments:
  "levels_of (displayFirstDigit p 1) = [OFF, ON, ON, ON, ON, ON, OFF] \<and>
   levels_of (displaySecondDigit p 1) = [OFF, ON, ON, ON, ON, ON, OFF] \<and>
   spec_levels 1 = [OFF, ON, ON, OFF, OFF, OFF, OFF]"
  by (simp add: displayFirstDigit_def displaySecondDigit_def display_one spec_levels_def
      spec_digit_table_def)

section \<open>The score state machine\<close>

lemma handle_button_release:
  assumes "prev_button_state (deref r s)" and "digitalRead io (button_pin r) = LOW"
    and "\<not> winner_found s"
  shows "deref r (fst (handle_button r io s)) =
           (increment_score (deref r s))\<lparr>button_state := False, prev_button_state := False\<rparr>"
  using assms by (cases r) (simp_all add: handle_button_def increment_score_def Let_def)

text \<open>
  Claim C3, amended. In a state with no winner found and the player's ones digit in
  0..9, a release edge (the button reads LOW and was pressed at the previous call) adds
  exactly 1 to that player's combined score, provided the player is not at 255 tens and
  9 ones: the ones digit is incremented, and when it reaches 10 it is set to 0 and the
  tens digit is incremented in the same call.
\<close>

theorem release_increments_score:
  assumes "\<not> winner_found s"
    and "prev_button_state (deref r s)"
    and "digitalRead io (button_pin r) = LOW"
    and "uint (d2_num (deref r s)) \<le> 9"
    and "\<not> (d1_num (deref r s) = 255 \<and> d2_num (deref r s) = 9)"
  shows "combined_score (deref r (fst (handle_button r io s))) = combined_score (deref r s) + 1 \<and>
         d2_num (deref r (fst (handle_button r io s))) =
           (if d2_num (deref r s) = 9 then 0 else d2_num (deref r s) + 1) \<and>
         d1_num (deref r (fst (handle_button r io s))) =
           (if d2_num (deref r s) = 9 then d1_num (deref r s) + 1 else d1_num (deref r s))"
proof -
  let ?p = "deref r s"
  have after: "deref r (fst (handle_button r io s)) =
      (increment_score ?p)\<lparr>button_state := False, prev_button_state := False\<rparr>"
    using assms(1-3) by (simp add: handle_button_release)
  show ?thesis
  proof (cases "d2_num ?p = 9")
    case True
    with assms(5) have "d1_num ?p \<noteq> 255" by simp
    then have "uint (d1_num ?p + 1) = uint (d1_num ?p) + 1" by (rule tens_carry)
    with True assms(4) show ?thesis
      by (simp add: after increment_score_cases combined_score_def)
  next
    case False
    from assms(4) have "uint (d2_num ?p + 1) = uint (d2_num ?p) + 1"
      by (simp add: uint_succ8)
    with False assms(4) show ?thesis
      by (simp add: after increment_score_cases combined_score_def)
  qed
qed

theorem release_increments_score_witness:
  "combined_score (p1 nineteen_state) = 19 \<and>
   combined_score (p1 (fst (handle_button RefP1 (released 0) nineteen_state))) = 20 \<and>
   d2_num (p1 (fst (handle_button RefP1 (released 0) nineteen_state))) = 0 \<and>
   d1_num (p1 (fst (handle_button RefP1 (released 0) nineteen_state))) = 2"
  using release_increments_score [of nineteen_state RefP1 "released 0"]
  by (simp add: nineteen_state_def seen_pressed_def with_digits_def setup_state_def
      released_def combined_score_def)

text \<open>
  At 255 tens and 9 ones the tens digit, a \<open>uint8_t\<close>, wraps: the release takes the
  combined score from 2559 to 0.
\<close>

theorem release_at_tens_limit_counterexample:
  "\<not> winner_found carry_state \<and> uint (d2_num (p1 carry_state)) \<le> 9 \<and>
   prev_button_state (p1 carry_state) \<and>
   combined_score (p1 carry_state) = 2559 \<and>
   combined_score (p1 (fst (handle_button RefP1 (released 0) carry_state))) = 0"
  by (simp add: carry_state_def seen_pressed_def with_digits_def setup_state_def
      released_def combined_score_def handle_button_def button_pin_def increment_score_def
      Let_def macros)

section \<open>Frame properties of the button handler\<close>

lemma handle_button_winner_found [simp]:
  "winner_found (fst (handle_button r io s)) = winner_found s"
  by (simp add: handle_button_def reset_game_def Let_def split: prod.splits)

lemma handle_button_p1_is_winner [simp]:
  "p1_is_winner (fst (handle_button r io s)) = p1_is_winner s"
  by (simp add: handle_button_def reset_game_def Let_def split: prod.splits)

lemma handle_button_other:
  "r' \<noteq> r \<Longrightarrow> deref r' (fst (handle_button r io s)) = deref r' s"
  by (simp add: handle_button_def reset_game_def Let_def split: prod.splits)

lemma handle_button_frozen:
  "winner_found s \<Longrightarrow>
   d1_num (deref r' (fst (handle_button r io s))) = d1_num (deref r' s) \<and>
   d2_num (deref r' (fst (handle_button r io s))) = d2_num (deref r' s)"
  by (cases "r' = r") (simp_all add: handle_button_def reset_game_def Let_def split: prod.splits)

lemma handle_button_pins:
  "d1_pins (deref r' (fst (handle_button r io s))) = d1_pins (deref r' s) \<and>
   d2_pins (deref r' (fst (handle_button r io s))) = d2_pins (deref r' s)"
  by (cases "r' = r")
    (simp_all add: handle_button_def reset_game_def increment_score_def Let_def
      split: prod.splits)

lemma handle_button_digits_frozen:
  "winner_found s \<Longrightarrow> digits (fst (handle_button r io s)) = digits s"
  using handle_button_frozen [of s RefP1 r io] handle_button_frozen [of s RefP2 r io]
  by (simp add: digits_def)

lemma loop_state:
  "fst (loop io1 io2 s) =
     (if \<not> winner_found s then check_win (after_buttons io1 io2 s)
      else after_buttons io1 io2 s)"
  by (simp add: loop_def after_buttons_def Let_def split_def)

lemma after_buttons_winner_found [simp]:
  "winner_found (after_buttons io1 io2 s) = winner_found s"
  by (simp add: after_buttons_def)

lemma after_buttons_p1_is_winner [simp]:
  "p1_is_winner (after_buttons io1 io2 s) = p1_is_winner s"
  by (simp add: after_buttons_def)

lemma after_buttons_digits_frozen:
  "winner_found s \<Longrightarrow> digits (after_buttons io1 io2 s) = digits s"
  by (simp add: after_buttons_def handle_button_digits_frozen)

text \<open>
  Claim C4. In every state in which \<open>winner_found\<close> is true, a call of
  \<open>handle_button\<close>, for either player and whatever the button reads (press, hold or
  release), leaves the tens and ones digits of both players unchanged; so does a whole
  iteration of \<open>loop\<close>.
\<close>

theorem scores_frozen_after_win:
  assumes "winner_found s"
  shows "digits (fst (handle_button r io s)) = digits s \<and>
         digits (fst (loop io1 io2 s)) = digits s"
  using assms by (simp add: handle_button_digits_frozen loop_state after_buttons_digits_frozen)

theorem scores_frozen_after_win_witness:
  "winner_found won_state \<and>
   digits (fst (handle_button RefP2 (released 7) (seen_pressed RefP2 won_state))) =
     ((2, 1), (1, 9)) \<and>
   digits (fst (loop (pressed 5) (released 7) (seen_pressed RefP2 won_state))) =
     ((2, 1), (1, 9))"
proof -
  have w: "winner_found (seen_pressed RefP2 won_state)"
    by (simp add: seen_pressed_def won_state_def)
  have d: "digits (seen_pressed RefP2 won_state) = ((2, 1), (1, 9))"
    by (simp add: seen_pressed_def won_state_def with_digits_def digits_def)
  show ?thesis
    using scores_frozen_after_win [OF w, of RefP2 "released 7" "pressed 5" "released 7"]
    by (simp add: d) (simp add: won_state_def)
qed

section \<open>The reset operation\<close>

text \<open>
  Claim C10. \<open>reset_game\<close> returns the globals it was given: the digits, the button
  states, the hold start times and the winner flags of both players are the same after
  the call as before. Its only event is the \<open>pinMode\<close> call that makes the RESET pin an
  output: no output level changes, and the mode of no other pin changes.
\<close>

theorem reset_game_changes_no_state:
  "fst (reset_game s) = s \<and>
   snd (reset_game s) = [PinMode RESET OUTPUT] \<and>
   drive (snd (reset_game s)) lv = lv \<and>
   configure (snd (reset_game s)) md = md(RESET := OUTPUT)"
  by (simp add: reset_game_def)

section \<open>The win evaluator\<close>

lemma score_small:
  "combined_score p \<le> 255 \<Longrightarrow> uint (score p) = combined_score p"
proof -
  assume a: "combined_score p \<le> 255"
  have "0 \<le> combined_score p" by (simp add: combined_score_def)
  with a have "combined_score p mod 2 ^ 8 = combined_score p" by simp
  moreover have "uint (score p) = combined_score p mod 2 ^ 8"
    unfolding score_def combined_score_def NUM_DIGITS_def
    by (simp only: uint_word_of_int) simp
  ultimately show ?thesis by simp
qed

lemma win_by_2_exclusive: "\<not> (win_by_2 a b \<and> win_by_2 b a)"
  by (auto simp add: win_by_2_def)

text \<open>
  Claim C1, amended. When \<open>loop\<close> evaluates the win condition (no winner found yet, so
  both flags are false) and both combined scores are at most 255, the largest value of
  the 8-bit variables they are stored in: player 1 is declared winner if and only if
  player 1's combined score is at least 21 and greater than player 2's plus 1; player 2
  is declared winner if and only if player 2's combined score is at least 21 and greater
  than player 1's plus 1; player 1 is tested first, and the two tests never hold
  together.
\<close>

theorem win_condition_within_8_bits:
  assumes "\<not> winner_found s" and "\<not> p1_is_winner s"
    and "combined_score (p1 s) \<le> 255" and "combined_score (p2 s) \<le> 255"
  shows "(winner_found (check_win s) \<and> p1_is_winner (check_win s)) =
           (combined_score (p1 s) \<ge> 21 \<and> combined_score (p1 s) > combined_score (p2 s) + 1) \<and>
         (winner_found (check_win s) \<and> \<not> p1_is_winner (check_win s)) =
           (combined_score (p2 s) \<ge> 21 \<and> combined_score (p2 s) > combined_score (p1 s) + 1) \<and>
         \<not> (win_by_2 (score (p1 s)) (score (p2 s)) \<and> win_by_2 (score (p2 s)) (score (p1 s)))"
proof -
  have s1: "uint (score (p1 s)) = combined_score (p1 s)"
    using assms(3) by (rule score_small)
  have s2: "uint (score (p2 s)) = combined_score (p2 s)"
    using assms(4) by (rule score_small)
  show ?thesis
    using assms(1,2) by (auto simp add: check_win_def win_by_2_def Let_def s1 s2 UP_TO_SCORE_def)
qed

theorem win_condition_within_8_bits_witness:
  "combined_score (p1 (with_digits (2, 2) (2, 0) setup_state)) = 22 \<and>
   combined_score (p2 (with_digits (2, 2) (2, 0) setup_state)) = 20 \<and>
   winner_found (check_win (with_digits (2, 2) (2, 0) setup_state)) \<and>
   p1_is_winner (check_win (with_digits (2, 2) (2, 0) setup_state))"
  using win_condition_within_8_bits [of "with_digits (2, 2) (2, 0) setup_state"]
  by (simp add: with_digits_def setup_state_def combined_score_def)

text \<open>
  With 256 points for player 1 and 255 for player 2 the stored score of player 1 is 0,
  and player 2 is declared winner although player 2's combined score is not greater than
  player 1's plus 1. This is the evaluation \<open>loop\<close> makes when, at 255 all, player 1
  releases the button and scores.
\<close>

theorem win_condition_overflow_counterexample:
  "\<not> winner_found overflow_state \<and>
   combined_score (p1 overflow_state) = 256 \<and>
   combined_score (p2 overflow_state) = 255 \<and>
   winner_found (check_win overflow_state) \<and>
   \<not> p1_is_winner (check_win overflow_state) \<and>
   \<not> (combined_score (p2 overflow_state) > combined_score (p1 overflow_state) + 1) \<and>
   digits (after_buttons (released 0) (released 0) tied_255_state) = digits overflow_state \<and>
   match_state_of (fst (loop (released 0) (released 0) tied_255_state)) = P2Winner"
proof -
  have a: "\<not> winner_found overflow_state \<and>
      combined_score (p1 overflow_state) = 256 \<and>
      combined_score (p2 overflow_state) = 255 \<and>
      winner_found (check_win overflow_state) \<and>
      \<not> p1_is_winner (check_win overflow_state) \<and>
      \<not> (combined_score (p2 overflow_state) > combined_score (p1 overflow_state) + 1)"
    by (simp add: overflow_state_def with_digits_def setup_state_def combined_score_def
        check_win_def win_by_2_def score_def Let_def macros)
  have b: "after_buttons (released 0) (released 0) tied_255_state =
      overflow_state\<lparr>p1 := (p1 overflow_state)\<lparr>prev_button_state := False\<rparr>\<rparr>"
    by (simp add: after_buttons_def handle_button_def tied_255_state_def seen_pressed_def
        overflow_state_def with_digits_def setup_state_def released_def button_pin_def
        increment_score_def Let_def macros)
  have c: "digits (after_buttons (released 0) (released 0) tied_255_state) =
      digits overflow_state"
    by (simp add: b digits_def)
  have d: "match_state_of (fst (loop (released 0) (released 0) tied_255_state)) = P2Winner"
    by (simp add: loop_state b)
      (simp add: tied_255_state_def seen_pressed_def overflow_state_def with_digits_def
        setup_state_def check_win_def win_by_2_def score_def match_state_of_def Let_def macros)
  from a c d show ?thesis by simp
qed

section \<open>Invariants of the control loop\<close>

lemma check_win_players [simp]: "p1 (check_win s) = p1 s" "p2 (check_win s) = p2 s"
  by (simp_all add: check_win_def Let_def)

lemma increment_score_ones: "uint (d2_num (increment_score p)) \<le> 9"
  by (simp add: increment_score_def Let_def NUM_DIGITS_def)

lemma handle_button_ones:
  "uint (d2_num (deref r' s)) \<le> 9 \<Longrightarrow> uint (d2_num (deref r' (fst (handle_button r io s)))) \<le> 9"
  by (cases "r' = r")
    (simp_all add: handle_button_def reset_game_def increment_score_ones Let_def
      split: prod.splits)

lemma handle_button_ones_in_range:
  "ones_in_range s \<Longrightarrow> ones_in_range (fst (handle_button r io s))"
  using handle_button_ones [of RefP1 s r io] handle_button_ones [of RefP2 s r io]
  by (simp add: ones_in_range_def)

lemma after_buttons_ones_in_range:
  "ones_in_range s \<Longrightarrow> ones_in_range (after_buttons io1 io2 s)"
  by (simp add: after_buttons_def handle_button_ones_in_range)

lemma loop_ones_in_range: "ones_in_range s \<Longrightarrow> ones_in_range (fst (loop io1 io2 s))"
  using after_buttons_ones_in_range [of s io1 io2]
  by (simp add: loop_state) (simp add: ones_in_range_def)

lemma run_ones_in_range: "ones_in_range s \<Longrightarrow> ones_in_range (run ios s)"
  by (induction ios arbitrary: s) (auto simp add: loop_ones_in_range)

lemma setup_ones_in_range: "ones_in_range setup_state"
  by (simp add: ones_in_range_def setup_state_def)

lemma level_not_HIGH: "(l \<noteq> HIGH) = (l = LOW)"
  by (cases l) simp_all

lemma increment_score_digits:
  "uint (d2_num p) \<le> 9 \<Longrightarrow> player_digits (increment_score p) = carry (player_digits p)"
  by (simp add: increment_score_def Let_def NUM_DIGITS_def ones_carry player_digits_def
      carry_def)

lemma handle_button_digits:
  assumes "uint (d2_num (deref r s)) \<le> 9"
  shows "player_digits (deref r (fst (handle_button r io s))) =
     (if release_edge r io s \<and> \<not> winner_found s then carry (player_digits (deref r s))
      else player_digits (deref r s))"
proof (cases "release_edge r io s \<and> \<not> winner_found s")
  case True
  then have "deref r (fst (handle_button r io s)) =
      (increment_score (deref r s))\<lparr>button_state := False, prev_button_state := False\<rparr>"
    by (simp add: handle_button_release release_edge_def)
  then have "player_digits (deref r (fst (handle_button r io s))) =
      player_digits (increment_score (deref r s))"
    by (simp add: player_digits_def)
  with True assms show ?thesis by (simp add: increment_score_digits)
next
  case False
  then have "d1_num (deref r (fst (handle_button r io s))) = d1_num (deref r s) \<and>
      d2_num (deref r (fst (handle_button r io s))) = d2_num (deref r s)"
    by (auto simp add: handle_button_def reset_game_def release_edge_def level_not_HIGH Let_def
        split_def)
  with False show ?thesis by (auto simp add: player_digits_def)
qed

lemma ones_in_range_deref: "ones_in_range s \<Longrightarrow> uint (d2_num (deref r s)) \<le> 9"
  by (cases r) (simp_all add: ones_in_range_def)

text \<open>
  Claim C5. In every state the control loop reaches from initialisation, whatever the
  buttons read, the ones digit of each player is in 0..9. The same holds inside an
  iteration, after the first and after the second call of \<open>handle_button\<close>. Each call
  changes its player's digits in one of two ways only: on a release edge with no winner
  found the pair (tens, ones) becomes \<open>carry\<close> of itself, that is ones + 1 when ones is
  below 9, and at ones 9 tens + 1 together with ones 0, both in the same call; on any
  other read the pair is unchanged. So no state with a ones digit of 10 or more is
  observable.
\<close>

theorem ones_digit_always_in_range:
  "ones_in_range (run ios setup_state) \<and>
   ones_in_range (fst (handle_button RefP1 io1 (run ios setup_state))) \<and>
   ones_in_range (after_buttons io1 io2 (run ios setup_state)) \<and>
   player_digits (p1 (fst (handle_button RefP1 io1 (run ios setup_state)))) =
     (if release_edge RefP1 io1 (run ios setup_state) \<and> \<not> winner_found (run ios setup_state)
      then carry (player_digits (p1 (run ios setup_state)))
      else player_digits (p1 (run ios setup_state))) \<and>
   player_digits (p2 (after_buttons io1 io2 (run ios setup_state))) =
     (if release_edge RefP2 io2 (run ios setup_state) \<and> \<not> winner_found (run ios setup_state)
      then carry (player_digits (p2 (run ios setup_state)))
      else player_digits (p2 (run ios setup_state)))"
proof -
  let ?s = "run ios setup_state"
  let ?s1 = "fst (handle_button RefP1 io1 ?s)"
  have inv: "ones_in_range ?s" by (simp add: run_ones_in_range setup_ones_in_range)
  have inv1: "ones_in_range ?s1" using inv by (rule handle_button_ones_in_range)
  have inv2: "ones_in_range (after_buttons io1 io2 ?s)"
    using inv by (rule after_buttons_ones_in_range)
  have a: "player_digits (p1 ?s1) =
     (if release_edge RefP1 io1 ?s \<and> \<not> winner_found ?s
      then carry (player_digits (p1 ?s)) else player_digits (p1 ?s))"
    using handle_button_digits [OF ones_in_range_deref [OF inv], of RefP1 io1] by simp
  have same: "p2 ?s1 = p2 ?s"
    using handle_button_other [of RefP2 RefP1 io1 ?s] by simp
  have "player_digits (p2 (after_buttons io1 io2 ?s)) =
     (if release_edge RefP2 io2 ?s1 \<and> \<not> winner_found ?s1
      then carry (player_digits (p2 ?s1)) else player_digits (p2 ?s1))"
    using handle_button_digits [OF ones_in_range_deref [OF inv1], of RefP2 io2]
    by (simp add: after_buttons_def)
  then have b: "player_digits (p2 (after_buttons io1 io2 ?s)) =
     (if release_edge RefP2 io2 ?s \<and> \<not> winner_found ?s
      then carry (player_digits (p2 ?s)) else player_digits (p2 ?s))"
    by (simp add: same release_edge_def)
  from inv inv1 inv2 a b show ?thesis by (intro conjI)
qed

lemma check_win_flags:
  "\<not> p1_is_winner s \<or> winner_found s \<Longrightarrow>
   \<not> p1_is_winner (check_win s) \<or> winner_found (check_win s)"
  by (auto simp add: check_win_def Let_def)

lemma loop_flags:
  "\<not> p1_is_winner s \<or> winner_found s \<Longrightarrow>
   \<not> p1_is_winner (fst (loop io1 io2 s)) \<or> winner_found (fst (loop io1 io2 s))"
  using check_win_flags [of "after_buttons io1 io2 s"] by (auto simp add: loop_state)

lemma run_flags:
  "\<not> p1_is_winner s \<or> winner_found s \<Longrightarrow>
   \<not> p1_is_winner (run ios s) \<or> winner_found (run ios s)"
proof (induction ios arbitrary: s)
  case Nil
  then show ?case by simp
next
  case (Cons c ios)
  obtain io1 io2 where c: "c = (io1, io2)" by (cases c)
  from Cons.prems have "\<not> p1_is_winner (fst (loop io1 io2 s)) \<or> winner_found (fst (loop io1 io2 s))"
    by (rule loop_flags)
  then show ?case unfolding c run.simps by (rule Cons.IH)
qed

lemma reachable_flags:
  "\<not> p1_is_winner (run ios setup_state) \<or> winner_found (run ios setup_state)"
  by (rule run_flags) (simp add: setup_state_def)

lemma loop_match_state:
  assumes "\<not> p1_is_winner s \<or> winner_found s"
  shows "match_state_of (fst (loop io1 io2 s)) =
     (case match_state_of s of
        NoWinnerYet \<Rightarrow>
          if win_by_2 (score (p1 (after_buttons io1 io2 s))) (score (p2 (after_buttons io1 io2 s)))
          then P1Winner
          else if win_by_2 (score (p2 (after_buttons io1 io2 s))) (score (p1 (after_buttons io1 io2 s)))
          then P2Winner else NoWinnerYet
      | P1Winner \<Rightarrow> P1Winner
      | P2Winner \<Rightarrow> P2Winner)"
  using assms by (auto simp add: loop_state match_state_of_def check_win_def Let_def)

text \<open>
  Claim C8. In every state the control loop reaches from initialisation, the match is in
  exactly one of the three states no winner yet, player 1 is winner, player 2 is winner
  (the three values of \<open>match_state\<close>). While there is no winner both flags are false:
  the flag that names the winner is set only together with \<open>winner_found\<close>. An iteration
  leaves the state of the match as it is once a winner exists; from no winner yet it
  moves to player 1 is winner exactly when player 1's win test holds after the buttons
  have been handled, to player 2 is winner exactly when player 1's test fails and
  player 2's holds, and the two tests never hold together.
\<close>

theorem match_state_invariant:
  "(match_state_of (run ios setup_state) = NoWinnerYet) =
     (\<not> winner_found (run ios setup_state) \<and> \<not> p1_is_winner (run ios setup_state)) \<and>
   (match_state_of (run ios setup_state) = P1Winner) =
     (winner_found (run ios setup_state) \<and> p1_is_winner (run ios setup_state)) \<and>
   (match_state_of (run ios setup_state) = P2Winner) =
     (winner_found (run ios setup_state) \<and> \<not> p1_is_winner (run ios setup_state)) \<and>
   match_state_of (fst (loop io1 io2 (run ios setup_state))) =
     (case match_state_of (run ios setup_state) of
        NoWinnerYet \<Rightarrow>
          if win_by_2 (score (p1 (after_buttons io1 io2 (run ios setup_state))))
                      (score (p2 (after_buttons io1 io2 (run ios setup_state))))
          then P1Winner
          else if win_by_2 (score (p2 (after_buttons io1 io2 (run ios setup_state))))
                           (score (p1 (after_buttons io1 io2 (run ios setup_state))))
          then P2Winner else NoWinnerYet
      | P1Winner \<Rightarrow> P1Winner
      | P2Winner \<Rightarrow> P2Winner) \<and>
   \<not> (win_by_2 (score (p1 (after_buttons io1 io2 (run ios setup_state))))
                (score (p2 (after_buttons io1 io2 (run ios setup_state)))) \<and>
      win_by_2 (score (p2 (after_buttons io1 io2 (run ios setup_state))))
               (score (p1 (after_buttons io1 io2 (run ios setup_state)))))"
proof -
  let ?s = "run ios setup_state"
  have inv: "\<not> p1_is_winner ?s \<or> winner_found ?s" by (rule reachable_flags)
  have a: "(match_state_of ?s = NoWinnerYet) = (\<not> winner_found ?s \<and> \<not> p1_is_winner ?s)"
    using inv by (auto simp add: match_state_of_def)
  have b: "(match_state_of ?s = P1Winner) = (winner_found ?s \<and> p1_is_winner ?s)"
    by (simp add: match_state_of_def)
  have c: "(match_state_of ?s = P2Winner) = (winner_found ?s \<and> \<not> p1_is_winner ?s)"
    by (simp add: match_state_of_def)
  note d = loop_match_state [OF inv, of io1 io2]
  note e = win_by_2_exclusive [of "score (p1 (after_buttons io1 io2 ?s))"
      "score (p2 (after_buttons io1 io2 ?s))"]
  from a b c d e show ?thesis by (intro conjI)
qed

section \<open>Rendering and output levels\<close>

lemma displayLEDs_rows: "n < 10 \<Longrightarrow> length (displayLEDs ! n) = 7"
proof -
  assume "n < 10"
  moreover have "length displayLEDs = 10" by (simp add: displayLEDs_def)
  ultimately have "displayLEDs ! n \<in> set displayLEDs" by simp
  moreover have "\<forall>row \<in> set displayLEDs. length row = 7" by (simp add: displayLEDs_def)
  ultimately show ?thesis by blast
qed

lemma length_pattern_of [simp]: "length (pattern_of num) = 7"
proof (cases "num < 0 \<or> num \<ge> 10")
  case True
  then show ?thesis by (simp add: pattern_of_def macros)
next
  case False
  then have "nat num < 10" by arith
  then have "length (displayLEDs ! nat num) = 7" by (rule displayLEDs_rows)
  with False show ?thesis by (simp add: pattern_of_def macros)
qed


lemma length_display_digit [simp]: "length (display_digit ps num) = 7"
  by (simp add: display_digit_def macros)

lemma levels_of_append [simp]: "levels_of (xs @ ys) = levels_of xs @ levels_of ys"
  by (induction xs rule: levels_of.induct) simp_all

lemma pins_of_append [simp]: "pins_of (xs @ ys) = pins_of xs @ pins_of ys"
  by (induction xs rule: pins_of.induct) simp_all

lemma drive_append [simp]: "drive (xs @ ys) lv = drive ys (drive xs lv)"
proof (induction xs arbitrary: lv)
  case Nil
  then show ?case by simp
next
  case (Cons e es)
  then show ?case by (cases e) (simp_all add: fun_upd_def)
qed

lemma levels_of_writes:
  "length xs = length ls \<Longrightarrow> levels_of (map2 DigitalWrite xs ls) = ls"
  by (induction xs ls rule: list_induct2) simp_all


lemma levels_of_display_digit: "levels_of (display_digit ps num) = pattern_of num"
proof -
  have "display_digit ps num =
      map2 DigitalWrite (map (\<lambda>i. ps ! i) [0 ..< 7]) (pattern_of num)"
    by (rule nth_equalityI)
      (auto simp add: display_digit_def pattern_of_def macros displayLEDs_rows)
  then show ?thesis by (simp add: levels_of_writes)
qed





lemma handle_button_no_writes [simp]: "pins_of (snd (handle_button r io s)) = []"
  by (simp add: handle_button_def reset_game_def Let_def split: prod.splits)

lemma button_events_no_writes [simp]: "pins_of (button_events r c s) = []"
  by (cases r; cases c) simp_all

lemma blinkWinner_cong:
  "d1_pins p = d1_pins q \<Longrightarrow> d2_pins p = d2_pins q \<Longrightarrow> d1_num p = d1_num q \<Longrightarrow>
   d2_num p = d2_num q \<Longrightarrow> blinkWinner p = blinkWinner q"
  by (simp add: blinkWinner_def displayFirstDigit_def displaySecondDigit_def)

lemma after_buttons_pins:
  "d1_pins (deref r (after_buttons io1 io2 s)) = d1_pins (deref r s) \<and>
   d2_pins (deref r (after_buttons io1 io2 s)) = d2_pins (deref r s)"
  by (simp add: after_buttons_def handle_button_pins)

lemma after_buttons_frozen:
  "winner_found s \<Longrightarrow>
   d1_num (deref r (after_buttons io1 io2 s)) = d1_num (deref r s) \<and>
   d2_num (deref r (after_buttons io1 io2 s)) = d2_num (deref r s)"
  by (simp add: after_buttons_def handle_button_frozen)

lemma loop_events:
  "snd (loop io1 io2 s) =
     display_scores s @ button_events RefP1 (io1, io2) s @ button_events RefP2 (io1, io2) s @
     (if \<not> winner_found s then [] else blinkWinner (winner (after_buttons io1 io2 s)))"
  by (simp add: loop_def after_buttons_def winner_def Let_def split_def)

lemma loop_events_winner:
  assumes "winner_found s"
  shows "snd (loop io1 io2 s) =
     display_scores s @ button_events RefP1 (io1, io2) s @ button_events RefP2 (io1, io2) s @
     blinkWinner (winner s)"
proof -
  have "blinkWinner (winner (after_buttons io1 io2 s)) = blinkWinner (winner s)"
    using after_buttons_pins [of RefP1 io1 io2 s] after_buttons_pins [of RefP2 io1 io2 s]
      after_buttons_frozen [OF assms, of RefP1 io1 io2]
      after_buttons_frozen [OF assms, of RefP2 io1 io2]
    by (intro blinkWinner_cong) (simp_all add: winner_def)
  with assms show ?thesis by (simp add: loop_events)
qed

section \<open>The winner blink driver\<close>

lemma levels_of_display_scores:
  "levels_of (display_scores s) =
     pattern_of (uint (d1_num (p1 s))) @ pattern_of (uint (d2_num (p1 s))) @
     pattern_of (uint (d1_num (p2 s))) @ pattern_of (uint (d2_num (p2 s)))"
  by (simp add: display_scores_def displayFirstDigit_def displaySecondDigit_def
      levels_of_display_digit)

lemma pattern_of_blank: "pattern_of (- 1) = replicate 7 OFF"
  by (simp add: pattern_of_def macros)

text \<open>
  Claim C7, amended. Once a winner exists, each iteration of the control loop first
  performs the normal rendering of both players' scores, the winner's included, and
  handles both buttons; then, in place of the win evaluation, it performs the blink
  action on the winner's two displays: all segments of both digits are driven to the
  inactive level, a pause of 500 ms, the winner's actual score digits, a pause of 500 ms.
  The globals are those left by the two calls of \<open>handle_button\<close>.
\<close>

theorem blink_after_normal_rendering:
  assumes "winner_found s"
  shows "snd (loop io1 io2 s) =
           display_scores s @
           button_events RefP1 (io1, io2) s @ button_events RefP2 (io1, io2) s @
           display_digit (d1_pins (winner s)) (- 1) @ display_digit (d2_pins (winner s)) (- 1) @
           [Delay 500] @
           display_digit (d1_pins (winner s)) (uint (d1_num (winner s))) @
           display_digit (d2_pins (winner s)) (uint (d2_num (winner s))) @
           [Delay 500] \<and>
         fst (loop io1 io2 s) = after_buttons io1 io2 s \<and>
         levels_of (display_scores s) =
           pattern_of (uint (d1_num (p1 s))) @ pattern_of (uint (d2_num (p1 s))) @
           pattern_of (uint (d1_num (p2 s))) @ pattern_of (uint (d2_num (p2 s))) \<and>
         levels_of (display_digit (d1_pins (winner s)) (- 1) @
                    display_digit (d2_pins (winner s)) (- 1)) = replicate 14 OFF \<and>
         levels_of (display_digit (d1_pins (winner s)) (uint (d1_num (winner s))) @
                    display_digit (d2_pins (winner s)) (uint (d2_num (winner s)))) =
           pattern_of (uint (d1_num (winner s))) @ pattern_of (uint (d2_num (winner s)))"
proof -
  have "snd (loop io1 io2 s) =
      display_scores s @ button_events RefP1 (io1, io2) s @ button_events RefP2 (io1, io2) s @
      blinkWinner (winner s)"
    using assms by (rule loop_events_winner)
  moreover have "replicate 7 OFF @ replicate 7 OFF = replicate 14 OFF"
    by (simp add: replicate_add [symmetric])
  ultimately show ?thesis
    using assms
    by (simp add: blinkWinner_def displayFirstDigit_def displaySecondDigit_def loop_state
        SCORE_BLINK_MS_def levels_of_display_scores levels_of_display_digit pattern_of_blank)
qed

theorem blink_after_normal_rendering_witness:
  "winner_found won_state \<and>
   snd (loop (released 0) (released 0) won_state) =
     display_scores won_state @
     display_digit [2, 3, 4, 5, 6, 7, 8] (- 1) @
     display_digit [14, 15, 16, 17, 18, 19, 20] (- 1) @
     [Delay 500] @
     display_digit [2, 3, 4, 5, 6, 7, 8] 2 @
     display_digit [14, 15, 16, 17, 18, 19, 20] 1 @
     [Delay 500]"
proof -
  have w: "winner_found won_state" by (simp add: won_state_def)
  have b: "snd (handle_button r (released 0) s) = []" for r s
    by (simp add: handle_button_def reset_game_def Let_def released_def split_def)
  have p: "d1_pins (winner won_state) = [2, 3, 4, 5, 6, 7, 8]"
    "d2_pins (winner won_state) = [14, 15, 16, 17, 18, 19, 20]"
    "d1_num (winner won_state) = 2" "d2_num (winner won_state) = 1"
    by (simp_all add: winner_def won_state_def with_digits_def setup_state_def)
  show ?thesis
    using blink_after_normal_rendering [OF w, THEN conjunct1, of "released 0" "released 0"]
    by (simp add: w b p)
qed

text \<open>
  With player 1 the winner at 21 to 19, the iteration does not forgo the winner's normal
  rendering: its first fourteen events drive player 1's two displays with the digits 2
  and 1, before the blink action.
\<close>

theorem normal_rendering_not_forgone_counterexample:
  "winner_found won_state \<and> p1_is_winner won_state \<and>
   take 14 (snd (loop (released 0) (released 0) won_state)) =
     displayFirstDigit (p1 won_state) 2 @ displaySecondDigit (p1 won_state) 1 \<and>
   levels_of (take 14 (snd (loop (released 0) (released 0) won_state))) =
     displayLEDs ! 2 @ displayLEDs ! 1"
proof -
  have p: "d1_num (p1 won_state) = 2" "d2_num (p1 won_state) = 1"
    "winner_found won_state" "p1_is_winner won_state"
    by (simp_all add: won_state_def with_digits_def setup_state_def)
  have t: "take 14 (snd (loop (released 0) (released 0) won_state)) =
      displayFirstDigit (p1 won_state) 2 @ displaySecondDigit (p1 won_state) 1"
    by (simp add: loop_events display_scores_def displayFirstDigit_def displaySecondDigit_def p)
  have "pattern_of 2 = displayLEDs ! 2" "pattern_of 1 = displayLEDs ! 1"
    by (simp_all add: pattern_of_def macros)
  then show ?thesis
    by (simp add: t p displayFirstDigit_def displaySecondDigit_def levels_of_display_digit)
qed

lemma loop_wired: "wired s \<Longrightarrow> wired (fst (loop io1 io2 s))"
  using after_buttons_pins [of RefP1 io1 io2 s] after_buttons_pins [of RefP2 io1 io2 s]
  by (simp add: loop_state wired_def)

lemma run_wired: "wired s \<Longrightarrow> wired (run ios s)"
  by (induction ios arbitrary: s) (auto simp add: loop_wired)

text \<open>Every state the control loop reaches from initialisation has the wiring of \<open>setup()\<close>.\<close>

lemma reachable_wired: "wired (run ios setup_state)"
  by (rule run_wired) (simp add: wired_def)








section \<open>The button classifier and the reset trigger\<close>

lemma reset_fired_simps [simp]:
  "reset_fired [] = False"
  "reset_fired (e # es) = (e = PinMode RESET OUTPUT \<or> reset_fired es)"
  by (auto simp add: reset_fired_def)

lemma reset_fired_append [simp]:
  "reset_fired (xs @ ys) = (reset_fired xs \<or> reset_fired ys)"
  by (auto simp add: reset_fired_def)

lemma handle_button_reset:
  "reset_fired (snd (handle_button r io s)) =
     (digitalRead io (button_pin r) = HIGH \<and> prev_button_state (deref r s) \<and>
      3000 \<le> unat (millis io - start (deref r s)))"
  by (simp add: handle_button_def reset_game_def Let_def BUTTON_HOLD_MS_def)

lemma increment_score_frame [simp]:
  "button_state (increment_score p) = button_state p"
  "prev_button_state (increment_score p) = prev_button_state p"
  "start (increment_score p) = start p"
  by (simp_all add: increment_score_def Let_def)

lemma handle_button_prev:
  "prev_button_state (deref r (fst (handle_button r io s))) =
     (digitalRead io (button_pin r) = HIGH)"
  by (simp add: handle_button_def reset_game_def Let_def split_def)

lemma handle_button_start:
  "start (deref r (fst (handle_button r io s))) =
     (if digitalRead io (button_pin r) = HIGH \<and> \<not> prev_button_state (deref r s)
      then millis io else start (deref r s))"
  by (simp add: handle_button_def reset_game_def Let_def split_def)

text \<open>A call of \<open>handle_button\<close> reads its own player and \<open>winner_found\<close> only.\<close>

lemma handle_button_local:
  assumes "deref r s = deref r s'" and "winner_found s = winner_found s'"
  shows "deref r (fst (handle_button r io s)) = deref r (fst (handle_button r io s'))"
  using assms by (simp add: handle_button_def reset_game_def Let_def split_def)

lemma after_buttons_deref:
  "deref r (after_buttons io1 io2 s) = deref r (fst (handle_button r (sel r (io1, io2)) s))"
proof (cases r)
  case RefP1
  then show ?thesis
    using handle_button_other [of RefP1 RefP2 io2 "fst (handle_button RefP1 io1 s)"]
    by (simp add: after_buttons_def)
next
  case RefP2
  have "deref RefP2 (fst (handle_button RefP1 io1 s)) = deref RefP2 s"
    by (rule handle_button_other) simp
  then have "deref RefP2 (fst (handle_button RefP2 io2 (fst (handle_button RefP1 io1 s)))) =
      deref RefP2 (fst (handle_button RefP2 io2 s))"
    by (rule handle_button_local) simp
  with RefP2 show ?thesis by (simp add: after_buttons_def)
qed

lemma loop_deref_buttons:
  "prev_button_state (deref r (fst (loop io1 io2 s))) =
     (digitalRead (sel r (io1, io2)) (button_pin r) = HIGH) \<and>
   start (deref r (fst (loop io1 io2 s))) =
     (if digitalRead (sel r (io1, io2)) (button_pin r) = HIGH \<and> \<not> prev_button_state (deref r s)
      then millis (sel r (io1, io2)) else start (deref r s))"
proof -
  have "deref r (fst (loop io1 io2 s)) = deref r (after_buttons io1 io2 s)"
    by (cases r) (simp_all add: loop_state)
  then show ?thesis
    by (simp only: after_buttons_deref handle_button_prev handle_button_start)
qed

lemma button_events_reset:
  "reset_fired (button_events r c s) =
     (digitalRead (sel r c) (button_pin r) = HIGH \<and> prev_button_state (deref r s) \<and>
      3000 \<le> unat (millis (sel r c) - start (deref r s)))"
proof (cases r)
  case RefP1
  then show ?thesis by (cases c) (simp add: handle_button_reset)
next
  case RefP2
  have "deref RefP2 (fst (handle_button RefP1 io1 s)) = deref RefP2 s" for io1
    by (rule handle_button_other) simp
  with RefP2 show ?thesis by (cases c) (simp add: handle_button_reset)
qed

text \<open>
  The RESET pin is configured in an iteration exactly when one of the two calls of
  \<open>handle_button\<close> calls \<open>reset_game\<close>.
\<close>

lemma loop_reset_fired:
  "reset_fired (snd (loop io1 io2 s)) =
     (reset_fired (button_events RefP1 (io1, io2) s) \<or>
      reset_fired (button_events RefP2 (io1, io2) s))"
proof -
  have d: "\<not> reset_fired (display_digit ps num)" for ps num
    by (auto simp add: reset_fired_def display_digit_def)
  have "\<not> reset_fired (display_scores s)"
    by (simp add: display_scores_def displayFirstDigit_def displaySecondDigit_def d)
  moreover have "\<not> reset_fired (blinkWinner p)" for p
    by (simp add: blinkWinner_def displayFirstDigit_def displaySecondDigit_def d)
  ultimately show ?thesis by (simp add: loop_events del: button_events.simps)
qed

lemma resets_while_held:
  assumes "prev_button_state (deref r s)"
    and "\<forall>c \<in> set cs. digitalRead (sel r c) (button_pin r) = HIGH"
  shows "resets r cs s =
           (\<exists>c \<in> set cs. 3000 \<le> unat (millis (sel r c) - start (deref r s))) \<and>
         prev_button_state (deref r (run cs s)) \<and>
         start (deref r (run cs s)) = start (deref r s)"
  using assms
proof (induction cs arbitrary: s)
  case Nil
  then show ?case by simp
next
  case (Cons c cs)
  obtain io1 io2 where c: "c = (io1, io2)" by (cases c)
  let ?s = "fst (loop io1 io2 s)"
  from Cons.prems(2) have hd: "digitalRead (sel r (io1, io2)) (button_pin r) = HIGH"
    and h: "\<forall>c \<in> set cs. digitalRead (sel r c) (button_pin r) = HIGH"
    by (simp_all add: c)
  have p: "prev_button_state (deref r ?s)"
    using hd by (simp add: loop_deref_buttons)
  have st: "start (deref r ?s) = start (deref r s)"
    using Cons.prems(1) by (simp add: loop_deref_buttons)
  have ev: "reset_fired (button_events r (io1, io2) s) =
      (3000 \<le> unat (millis (sel r (io1, io2)) - start (deref r s)))"
    using hd Cons.prems(1) by (simp add: button_events_reset)
  from Cons.IH [OF p h] show ?case
    by (simp add: c st ev del: button_events.simps sel.simps)
qed

lemma resets_append:
  "resets r (cs @ ds) s = (resets r cs s \<or> resets r ds (run cs s))"
proof (induction cs arbitrary: s)
  case Nil
  then show ?case by simp
next
  case (Cons c cs)
  obtain io1 io2 where c: "c = (io1, io2)" by (cases c)
  show ?case by (simp add: c Cons.IH del: button_events.simps)
qed

text \<open>
  Claim C6, amended. The program sees a button only when \<open>handle_button\<close> reads it, once
  per iteration of \<open>loop\<close>, and measures a hold as \<open>millis() - start\<close>, from the press
  start time recorded at the press edge. Take any state in which the player's button was
  last seen released, and any execution in which the button is then read pressed (the
  press edge, input \<open>c0\<close>), read pressed again in each of the following iterations
  \<open>cs\<close>, and at last read released (\<open>cz\<close>); the other player's inputs are arbitrary.
  Then the player's handler calls \<open>reset_game\<close> at least once, during the hold, if and
  only if in one of the iterations of the hold the button is read at least 3000 ms after
  the recorded press start time. So a button still read pressed 3000 ms after the press
  start fires the reset trigger, and a button read released before any such read never
  fires it.
\<close>

theorem hold_fires_reset_iff_3000ms:
  assumes "\<not> prev_button_state (deref r s)"
    and "digitalRead (sel r c0) (button_pin r) = HIGH"
    and "\<forall>c \<in> set cs. digitalRead (sel r c) (button_pin r) = HIGH"
    and "digitalRead (sel r cz) (button_pin r) = LOW"
  shows "resets r (c0 # cs) s =
           (\<exists>c \<in> set cs. 3000 \<le> unat (millis (sel r c) - millis (sel r c0))) \<and>
         resets r (c0 # cs @ [cz]) s =
           (\<exists>c \<in> set cs. 3000 \<le> unat (millis (sel r c) - millis (sel r c0)))"
proof -
  obtain io1 io2 where c0: "c0 = (io1, io2)" by (cases c0)
  let ?s = "fst (loop io1 io2 s)"
  have first: "\<not> reset_fired (button_events r c0 s)"
    using assms(1) by (simp add: button_events_reset)
  have p: "prev_button_state (deref r ?s)" and st: "start (deref r ?s) = millis (sel r c0)"
    using assms(1,2) by (simp_all add: loop_deref_buttons c0)
  note held = resets_while_held [OF p assms(3), THEN conjunct1]
  have last: "\<not> reset_fired (button_events r cz (run cs ?s))"
    using assms(4) by (simp add: button_events_reset)
  have a: "resets r (c0 # cs) s =
      (\<exists>c \<in> set cs. 3000 \<le> unat (millis (sel r c) - millis (sel r c0)))"
    using first held by (simp add: c0 st del: button_events.simps sel.simps)
  have "resets r (c0 # cs @ [cz]) s = resets r (c0 # cs) s"
    using first last by (simp add: resets_append c0 del: button_events.simps sel.simps)
  with a show ?thesis by simp
qed

theorem hold_fires_reset_iff_3000ms_witness:
  "resets RefP1
     [(pressed 1000, released 1000), (pressed 2500, released 2500),
      (pressed 4000, released 4000), (released 4100, released 4100)] setup_state \<and>
   \<not> resets RefP1
     [(pressed 1000, released 1000), (pressed 2500, released 2500),
      (pressed 3999, released 3999), (released 4100, released 4100)] setup_state"
proof -
  have i: "\<not> prev_button_state (deref RefP1 setup_state)" by (simp add: setup_state_def)
  have h: "digitalRead (sel RefP1 (pressed t, x)) (button_pin RefP1) = HIGH" for t x
    by (simp add: pressed_def)
  have l: "digitalRead (sel RefP1 (released t, x)) (button_pin RefP1) = LOW" for t x
    by (simp add: released_def)
  have m: "millis (pressed t) = t" for t by (simp add: pressed_def)
  have "\<forall>c \<in> set [(pressed 2500, released 2500), (pressed 4000, released 4000)].
      digitalRead (sel RefP1 c) (button_pin RefP1) = HIGH"
    by (simp add: pressed_def)
  from hold_fires_reset_iff_3000ms [OF i h this l, THEN conjunct2, of 1000 "released 1000" 4100 "released 4100"]
  have a: "resets RefP1
     [(pressed 1000, released 1000), (pressed 2500, released 2500),
      (pressed 4000, released 4000), (released 4100, released 4100)] setup_state"
    by (simp add: m del: resets.simps)
  have "\<forall>c \<in> set [(pressed 2500, released 2500), (pressed 3999, released 3999)].
      digitalRead (sel RefP1 c) (button_pin RefP1) = HIGH"
    by (simp add: pressed_def)
  from hold_fires_reset_iff_3000ms [OF i h this l, THEN conjunct2, of 1000 "released 1000" 4100 "released 4100"]
  have b: "\<not> resets RefP1
     [(pressed 1000, released 1000), (pressed 2500, released 2500),
      (pressed 3999, released 3999), (released 4100, released 4100)] setup_state"
    by (simp add: m del: resets.simps)
  from a b show ?thesis by simp
qed

section \<open>A hold that ends between two reads\<close>

lemma delays_append [simp]: "delays (xs @ ys) = delays xs + delays ys"
proof (induction xs)
  case Nil
  then show ?case by simp
next
  case (Cons e es)
  then show ?case by (cases e) simp_all
qed

lemma delays_display_digit [simp]: "delays (display_digit ps num) = 0"
  by (simp add: display_digit_def SEVEN_SEGMENTS_def upt7)

lemma delays_display_scores [simp]: "delays (display_scores s) = 0"
  by (simp add: display_scores_def displayFirstDigit_def displaySecondDigit_def)

lemma delays_blinkWinner [simp]: "delays (blinkWinner p) = 1000"
  by (simp add: blinkWinner_def displayFirstDigit_def displaySecondDigit_def SCORE_BLINK_MS_def)

lemma delays_handle_button:
  "delays (snd (handle_button r io s)) =
     (if digitalRead io (button_pin r) = HIGH \<and> \<not> prev_button_state (deref r s) then 200 else 0)"
  by (simp add: handle_button_def reset_game_def Let_def BUTTON_PRESS_LENGTH_def)

lemma delays_button_events:
  "delays (button_events r c s) =
     (if digitalRead (sel r c) (button_pin r) = HIGH \<and> \<not> prev_button_state (deref r s)
      then 200 else 0)"
proof (cases r)
  case RefP1
  then show ?thesis by (cases c) (simp add: delays_handle_button)
next
  case RefP2
  have "deref RefP2 (fst (handle_button RefP1 io1 s)) = deref RefP2 s" for io1
    by (rule handle_button_other) simp
  with RefP2 show ?thesis by (cases c) (simp add: delays_handle_button)
qed

text \<open>After a win every iteration blocks for the two blink pauses, and for 200 ms more
  at each press edge.\<close>

lemma delays_loop_winner:
  "winner_found s \<Longrightarrow>
   delays (snd (loop io1 io2 s)) =
     delays (button_events RefP1 (io1, io2) s) + delays (button_events RefP2 (io1, io2) s) + 1000"
  by (simp add: loop_events del: button_events.simps)


lemma loop_winner_found: "winner_found s \<Longrightarrow> winner_found (fst (loop io1 io2 s))"
  by (simp add: loop_state)

lemma read_at_simps [simp]:
  "digitalRead (read_at env t) = env t" "millis (read_at env t) = of_nat t"
  by (simp_all add: read_at_def)

lemma idle_never_resets:
  assumes "\<not> prev_button_state (deref r s)"
    and "\<forall>u\<ge>t. env u (button_pin r) = LOW"
  shows "\<not> resets r (schedule env n t s) s"
  using assms
proof (induction n arbitrary: t s)
  case 0
  then show ?case by simp
next
  case (Suc n)
  let ?io1 = "read_at env t"
  let ?io2 = "read_at env (t + delays (snd (handle_button RefP1 ?io1 s)))"
  let ?s = "fst (loop ?io1 ?io2 s)"
  let ?t = "t + delays (snd (loop ?io1 ?io2 s))"
  have low: "digitalRead (sel r (?io1, ?io2)) (button_pin r) = LOW"
    using Suc.prems(2) by (cases r) simp_all
  then have quiet: "\<not> reset_fired (button_events r (?io1, ?io2) s)"
    by (simp add: button_events_reset del: button_events.simps sel.simps)
  from low have "\<not> prev_button_state (deref r ?s)"
    by (simp add: loop_deref_buttons del: sel.simps)
  moreover from Suc.prems(2) have "\<forall>u\<ge>?t. env u (button_pin r) = LOW" by simp
  ultimately have "\<not> resets r (schedule env n ?t ?s) ?s" by (rule Suc.IH)
  with quiet show ?case by (simp add: Let_def del: button_events.simps)
qed

lemma p1_after_loop:
  "prev_button_state (p1 (fst (loop io1 io2 s))) = (digitalRead io1 P1_BUTTON = HIGH)"
  "start (p1 (fst (loop io1 io2 s))) =
     (if digitalRead io1 P1_BUTTON = HIGH \<and> \<not> prev_button_state (p1 s)
      then millis io1 else start (p1 s))"
  using loop_deref_buttons [of RefP1 io1 io2 s] by (simp_all add: button_pin_def)

lemma p2_after_loop:
  "prev_button_state (p2 (fst (loop io1 io2 s))) = (digitalRead io2 P2_BUTTON = HIGH)"
  using loop_deref_buttons [of RefP2 io1 io2 s] by (simp add: button_pin_def)

lemma p1_button_reset:
  "reset_fired (button_events RefP1 (io1, io2) s) =
     (digitalRead io1 P1_BUTTON = HIGH \<and> prev_button_state (p1 s) \<and>
      3000 \<le> unat (millis io1 - start (p1 s)))"
  using button_events_reset [of RefP1 "(io1, io2)" s] by (simp add: button_pin_def)

lemma p1_down_until_simps [simp]:
  "p1_down_until d t P1_BUTTON = (if t < d then HIGH else LOW)"
  "p1_down_until d t P2_BUTTON = LOW"
  by (simp_all add: p1_down_until_def P1_BUTTON_def P2_BUTTON_def)

text \<open>
  One scheduled iteration after a win, with player 1's button down until time \<open>d\<close> and
  player 2's button never touched.
\<close>

lemma schedule_step_after_win:
  assumes "winner_found s" and "\<not> prev_button_state (p2 s)"
  shows "schedule (p1_down_until d) (Suc n) t s =
     (read_at (p1_down_until d) t,
      read_at (p1_down_until d)
        (t + (if t < d \<and> \<not> prev_button_state (p1 s) then 200 else 0))) #
     schedule (p1_down_until d) n
       (t + (if t < d \<and> \<not> prev_button_state (p1 s) then 200 else 0) + 1000)
       (fst (loop (read_at (p1_down_until d) t)
          (read_at (p1_down_until d)
            (t + (if t < d \<and> \<not> prev_button_state (p1 s) then 200 else 0))) s))"
  using assms
  by (simp add: delays_handle_button delays_loop_winner delays_button_events button_pin_def
      Let_def add.commute del: button_events.simps)

text \<open>
  After a win every iteration blocks for a second, and for 200 ms more at a press edge.
  With player 1 the winner, let player 1's button go down at time 0 and stay down for
  3100 ms. It is read at 0 (the press edge, which records the press start time 0), at
  1200 and at 2200, each time pressed and less than 3000 ms after the press start, and
  at 3200, released. The button was held continuously for more than 3000 ms measured
  from the recorded press start time, and the reset trigger never fires, however long
  the program runs.
\<close>

theorem hold_of_3100ms_fires_no_reset_counterexample:
  "winner_found won_state \<and> \<not> prev_button_state (p1 won_state) \<and>
   held_for (p1_down_until 3100) P1_BUTTON 0 3100 \<and>
   map (\<lambda>c. unat (millis (fst c))) (schedule (p1_down_until 3100) 4 0 won_state) =
     [0, 1200, 2200, 3200] \<and>
   map (\<lambda>c. digitalRead (fst c) P1_BUTTON) (schedule (p1_down_until 3100) 4 0 won_state) =
     [HIGH, HIGH, HIGH, LOW] \<and>
   start (p1 (run (schedule (p1_down_until 3100) 1 0 won_state) won_state)) = 0 \<and>
   (\<forall>n. \<not> resets RefP1 (schedule (p1_down_until 3100) (4 + n) 0 won_state) won_state)"
proof -
  let ?E = "p1_down_until 3100"
  have w: "winner_found won_state" by (simp add: won_state_def)
  have i: "\<not> prev_button_state (p1 won_state)" "\<not> prev_button_state (p2 won_state)"
    by (simp_all add: won_state_def with_digits_def setup_state_def)
  have h: "held_for ?E P1_BUTTON 0 3100" by (simp add: held_for_def)
  have tail: "\<not> resets RefP1 (schedule ?E n t S) S"
    if "\<not> prev_button_state (p1 S)" and "3100 \<le> t" for t S n
    using that by (intro idle_never_resets) (simp_all add: button_pin_def)
  note after = loop_winner_found p1_after_loop p2_after_loop
  define s1 where "s1 = fst (loop (read_at ?E 0) (read_at ?E 200) won_state)"
  define s2 where "s2 = fst (loop (read_at ?E 1200) (read_at ?E 1200) s1)"
  define s3 where "s3 = fst (loop (read_at ?E 2200) (read_at ?E 2200) s2)"
  define s4 where "s4 = fst (loop (read_at ?E 3200) (read_at ?E 3200) s3)"
  have f1: "winner_found s1" "\<not> prev_button_state (p2 s1)" "prev_button_state (p1 s1)"
    "start (p1 s1) = 0"
    by (simp_all add: s1_def after w i)
  have f2: "winner_found s2" "\<not> prev_button_state (p2 s2)" "prev_button_state (p1 s2)"
    "start (p1 s2) = 0"
    by (simp_all add: s2_def after f1)
  have f3: "winner_found s3" "\<not> prev_button_state (p2 s3)" "prev_button_state (p1 s3)"
    "start (p1 s3) = 0"
    by (simp_all add: s3_def after f2)
  have f4: "\<not> prev_button_state (p1 s4)"
    by (simp add: s4_def after)
  have e1: "schedule ?E (Suc n) 0 won_state =
      (read_at ?E 0, read_at ?E 200) # schedule ?E n 1200 s1" for n
    using schedule_step_after_win [OF w i(2), of 3100 n 0] by (simp add: i s1_def)
  have e2: "schedule ?E (Suc n) 1200 s1 =
      (read_at ?E 1200, read_at ?E 1200) # schedule ?E n 2200 s2" for n
    using schedule_step_after_win [OF f1(1,2), of 3100 n 1200] by (simp add: f1 s2_def)
  have e3: "schedule ?E (Suc n) 2200 s2 =
      (read_at ?E 2200, read_at ?E 2200) # schedule ?E n 3200 s3" for n
    using schedule_step_after_win [OF f2(1,2), of 3100 n 2200] by (simp add: f2 s3_def)
  have e4: "schedule ?E (Suc n) 3200 s3 =
      (read_at ?E 3200, read_at ?E 3200) # schedule ?E n 4200 s4" for n
    using schedule_step_after_win [OF f3(1,2), of 3100 n 3200] by (simp add: f3 s4_def)
  have four: "schedule ?E (4 + n) 0 won_state =
      (read_at ?E 0, read_at ?E 200) # (read_at ?E 1200, read_at ?E 1200) #
      (read_at ?E 2200, read_at ?E 2200) # (read_at ?E 3200, read_at ?E 3200) #
      schedule ?E n 4200 s4" for n
  proof -
    have "4 + n = Suc (Suc (Suc (Suc n)))" by simp
    then show ?thesis by (simp only: e1 e2 e3 e4)
  qed
  have times: "map (\<lambda>c. unat (millis (fst c))) (schedule ?E 4 0 won_state) =
      [0, 1200, 2200, 3200]"
    using four [of 0] by simp
  have reads: "map (\<lambda>c. digitalRead (fst c) P1_BUTTON) (schedule ?E 4 0 won_state) =
      [HIGH, HIGH, HIGH, LOW]"
    using four [of 0] by simp
  have one: "schedule ?E 1 0 won_state = [(read_at ?E 0, read_at ?E 200)]"
    using e1 [of 0] by simp
  have st: "start (p1 (run (schedule ?E 1 0 won_state) won_state)) = 0"
    unfolding one by (simp add: f1 s1_def [symmetric])
  have never: "\<not> resets RefP1 (schedule ?E (4 + n) 0 won_state) won_state" for n
    unfolding four
    by (simp add: p1_button_reset i f1 f2 f3 f4 tail
        s1_def [symmetric] s2_def [symmetric] s3_def [symmetric] s4_def [symmetric]
        del: button_events.simps)
  from w i(1) h times reads st never show ?thesis by simp
qed

end
